theory Spec2Isabelle
  imports Complex_Main "HOL-Library.Multiset" "HOL-Library.Product_Lexorder"
begin

section \<open>Python values used by the service\<close>

text \<open>
  Python slicing with a possibly negative bound: \<open>xs[:n]\<close> and \<open>xs[n:]\<close>.
  A negative bound counts from the end and is clamped at the start of the list.
  pandas' \<open>DataFrame.head(n)\<close> has the same reading of a negative \<open>n\<close>.
\<close>

definition py_take :: "int \<Rightarrow> 'a list \<Rightarrow> 'a list" where
  "py_take n xs = (if 0 \<le> n then take (nat n) xs else take (length xs - nat (- n)) xs)"

definition py_drop :: "int \<Rightarrow> 'a list \<Rightarrow> 'a list" where
  "py_drop n xs = (if 0 \<le> n then drop (nat n) xs else drop (length xs - nat (- n)) xs)"

subsection \<open>Floats\<close>

text \<open>
  A Python float is a double: NaN, an infinity, or a finite value, which is a rational
  number (zero has one representative here; negative zero compares equal to it).
  \<open>float_lt\<close> is the comparison \<open><\<close> and \<open>float_le\<close> the comparison \<open><=\<close>; both
  are false as soon as one side is NaN.
\<close>

datatype py_float = NaN | MinusInf | Finite rat | PlusInf

fun float_lt :: "py_float \<Rightarrow> py_float \<Rightarrow> bool" where
  "float_lt (Finite a) (Finite b) = (a < b)"
| "float_lt (Finite a) PlusInf = True"
| "float_lt MinusInf (Finite b) = True"
| "float_lt MinusInf PlusInf = True"
| "float_lt _ _ = False"

definition float_le :: "py_float \<Rightarrow> py_float \<Rightarrow> bool" where
  "float_le a b = (a \<noteq> NaN \<and> b \<noteq> NaN \<and> \<not> float_lt b a)"

text \<open>The place of a float in the linear order of the floats other than NaN.\<close>

definition float_rank :: "py_float \<Rightarrow> nat \<times> rat" where
  "float_rank x =
     (case x of MinusInf \<Rightarrow> (0, 0) | Finite q \<Rightarrow> (1, q) | PlusInf \<Rightarrow> (2, 0) | NaN \<Rightarrow> (3, 0))"

subsection \<open>Sorting\<close>

text \<open>
  \<open>list.sort\<close> as CPython (to version 3.12) runs it on a list of fewer than 64
  elements, with \<open>lt\<close> the comparison of two elements.  \<open>count_run\<close> measures the run the list starts with: a
  strictly descending run when the second element is less than the first, and else a
  run that never descends.
\<close>

fun count_run_ascending :: "('a \<Rightarrow> 'a \<Rightarrow> bool) \<Rightarrow> 'a \<Rightarrow> 'a list \<Rightarrow> nat \<Rightarrow> nat" where
  "count_run_ascending lt prev [] n = n"
| "count_run_ascending lt prev (x # xs) n =
     (if lt x prev then n else count_run_ascending lt x xs (Suc n))"

fun count_run_descending :: "('a \<Rightarrow> 'a \<Rightarrow> bool) \<Rightarrow> 'a \<Rightarrow> 'a list \<Rightarrow> nat \<Rightarrow> nat" where
  "count_run_descending lt prev [] n = n"
| "count_run_descending lt prev (x # xs) n =
     (if lt x prev then count_run_descending lt x xs (Suc n) else n)"

fun count_run :: "('a \<Rightarrow> 'a \<Rightarrow> bool) \<Rightarrow> 'a list \<Rightarrow> nat \<times> bool" where
  "count_run lt [] = (0, False)"
| "count_run lt [x] = (1, False)"
| "count_run lt (x # y # zs) =
     (if lt y x then (count_run_descending lt y zs 2, True)
      else (count_run_ascending lt y zs 2, False))"

text \<open>
  \<open>binarysort\<close> inserts each remaining element into the run, at the place a binary
  search between \<open>l\<close> and \<open>r\<close> finds: to the right of the elements it is not less than.
\<close>

function bisect_right :: "('a \<Rightarrow> 'a \<Rightarrow> bool) \<Rightarrow> 'a \<Rightarrow> 'a list \<Rightarrow> nat \<Rightarrow> nat \<Rightarrow> nat" where
  "bisect_right lt pivot xs l r =
     (if l < r
      then
        let p = l + (r - l) div 2
        in if lt pivot (xs ! p) then bisect_right lt pivot xs l p
           else bisect_right lt pivot xs (p + 1) r
      else l)"
  by pat_completeness auto
termination
  by (relation "measure (\<lambda>(lt, pivot, xs, l, r). r - l)") auto

declare bisect_right.simps [simp del]

fun binarysort :: "('a \<Rightarrow> 'a \<Rightarrow> bool) \<Rightarrow> 'a list \<Rightarrow> 'a list \<Rightarrow> 'a list" where
  "binarysort lt run [] = run"
| "binarysort lt run (pivot # rest) =
     (let l = bisect_right lt pivot run 0 (length run)
      in binarysort lt (take l run @ pivot # drop l run) rest)"

definition list_sort :: "('a \<Rightarrow> 'a \<Rightarrow> bool) \<Rightarrow> 'a list \<Rightarrow> 'a list" where
  "list_sort lt xs =
     (if length xs < 2 then xs
      else
        (case count_run lt xs of
           (n, descending) \<Rightarrow>
             binarysort lt (if descending then rev (take n xs) else take n xs) (drop n xs)))"

text \<open>
  \<open>sorted(xs, key=f, reverse=True)\<close> with float keys: CPython reverses the list, sorts
  it by \<open><\<close> on the keys and reverses the result.  The service sorts at most 15
  candidates (lemma \<open>online_unique_recs_short\<close>), so this is all of the sort it can
  reach.  On keys without NaN the sort is a stable one (lemma
  \<open>py_sorted_reverse_is_sort_key\<close>), as is the merge sort CPython applies to longer
  lists; with a NaN among the keys \<open><\<close> is no order and the result need not be sorted.
\<close>

definition py_sorted_reverse :: "('a \<Rightarrow> py_float) \<Rightarrow> 'a list \<Rightarrow> 'a list" where
  "py_sorted_reverse f xs = rev (list_sort (\<lambda>a b. float_lt (f a) (f b)) (rev xs))"

text \<open>
  pandas' \<open>sort_values(column, ascending=False)\<close> on a float column: the rows whose
  value is not NaN by descending value, then the rows whose value is NaN, in table
  order.  The order pandas gives to rows of equal value is taken to be the table order.
\<close>

definition sort_values_descending :: "('a \<Rightarrow> py_float) \<Rightarrow> 'a list \<Rightarrow> 'a list" where
  "sort_values_descending f rows =
     py_sorted_reverse f (filter (\<lambda>row. f row \<noteq> NaN) rows) @ filter (\<lambda>row. f row = NaN) rows"

datatype py_error = OverflowError

subsection \<open>The double-precision product \<open>total_limit * 0.7\<close>\<close>

text \<open>
  Binary64 arithmetic, on the integers: a non-negative value is kept as an integer,
  rounding keeps its 53 leading bits, to nearest and to even on a tie.  The literal
  \<open>0.7\<close> is the double \<open>6305039478318694 / 2^53\<close>.
\<close>

function bit_len :: "int \<Rightarrow> nat" where
  "bit_len n = (if n \<le> 0 then 0 else Suc (bit_len (n div 2)))"
  by pat_completeness auto
termination
  by (relation "measure nat") auto

declare bit_len.simps [simp del]

definition round53 :: "int \<Rightarrow> int" where
  "round53 p =
     (let b = bit_len p in
      if b \<le> 53 then p
      else
        let s = b - 53;
            q = p div 2 ^ s;
            r = p mod 2 ^ s;
            h = 2 ^ (s - 1)
        in (if h < r \<or> (r = h \<and> odd q) then q + 1 else q) * 2 ^ s)"

definition double_0_7_mantissa :: int where
  "double_0_7_mantissa = 6305039478318694"

text \<open>
  \<open>int(n * 0.7)\<close>: \<open>n\<close> is converted to a double (OverflowError when it does not
  fit), the product is rounded once, and \<open>int\<close> truncates towards zero.
\<close>

definition int_mul_0_7 :: "int \<Rightarrow> py_error + int" where
  "int_mul_0_7 n =
     (let a = round53 \<bar>n\<bar> in
      if 2 ^ 1024 \<le> a then Inl OverflowError
      else
        let p = round53 (a * double_0_7_mantissa);
            v = p div 2 ^ 53
        in Inr (if 0 \<le> n then v else - v))"

section \<open>Data model\<close>

text \<open>
  Scores are Python floats, NaN included: a null or NaN cell of a float column reads as
  NaN.  The tables are data frames with the columns the service reads, one record per
  row, in table order; a table that was not loaded is \<open>None\<close>.  A cell of
  \<open>artist_names\<close> or \<open>genre_names\<close> is \<open>Some l\<close> when it holds a Python list and
  \<open>None\<close> otherwise; the optional columns \<open>score\<close> and \<open>users\<close> are \<open>None\<close> when
  absent.  On rows of these types no conversion in the generators raises, so the
  \<open>except\<close> branches around their stages are never taken and are not part of the
  model; a missing \<open>users\<close> count reads as 1, and \<open>float\<close> of a count is the count
  (below \<open>2^53\<close>).
\<close>

record TrackRecommendation =
  track_id :: int
  track_name :: string
  artists :: "string list"
  genres :: "string list"
  score :: py_float
  rec_type :: string
  source :: string
  based_on_track :: "int option"

record TrackInfo =
  info_track_name :: string
  artist_names :: "string list"
  genre_names :: "string list"

record HealthResponse =
  status :: string
  data_loaded :: bool
  health_timestamp :: string

record item_row =
  item_track_id :: int
  item_track_name :: string
  item_artist_names :: "string list option"
  item_genre_names :: "string list option"

record similar_row =
  seed_track_id :: int
  similar_track_id :: int
  similarity_score :: py_float

record personal_row =
  personal_user_id :: int
  personal_track_id :: int
  personal_score :: "py_float option"

record popular_row =
  popular_track_id :: int
  popular_users :: "int option"

record RecommendationService =
  items_df :: "item_row list option"
  similar_df :: "similar_row list option"
  personal_recs_df :: "personal_row list option"
  top_popular_df :: "popular_row list option"

text \<open>The double nearest to the literal \<open>0.1\<close>.\<close>

definition double_0_1 :: py_float where
  "double_0_1 = Finite (Fract 3602879701896397 36028797018963968)"

section \<open>Catalog lookup\<close>

definition list_cell :: "string list option \<Rightarrow> string list" where
  "list_cell c = (case c of Some l \<Rightarrow> l | None \<Rightarrow> [])"

definition get_track_info :: "RecommendationService \<Rightarrow> int \<Rightarrow> TrackInfo option" where
  "get_track_info service tid =
     (case items_df service of
        None \<Rightarrow> None
      | Some items \<Rightarrow>
          (case filter (\<lambda>row. item_track_id row = tid) items of
             [] \<Rightarrow> None
           | row # _ \<Rightarrow>
               Some \<lparr>info_track_name = item_track_name row,
                     artist_names = list_cell (item_artist_names row),
                     genre_names = list_cell (item_genre_names row)\<rparr>))"

section \<open>Offline candidate generator\<close>

text \<open>Lines 167-183: the loop over the user's rows of the personal table.\<close>

fun add_personal :: "RecommendationService \<Rightarrow> TrackRecommendation list \<Rightarrow> personal_row list
    \<Rightarrow> TrackRecommendation list" where
  "add_personal service recs [] = recs"
| "add_personal service recs (row # rows) =
     (case get_track_info service (personal_track_id row) of
        None \<Rightarrow> add_personal service recs rows
      | Some track_info \<Rightarrow>
          add_personal service
            (recs @
             [\<lparr>track_id = personal_track_id row,
               track_name = info_track_name track_info,
               artists = artist_names track_info,
               genres = genre_names track_info,
               score = (case personal_score row of Some x \<Rightarrow> x | None \<Rightarrow> Finite (1 / 2)),
               rec_type = ''personal_als'',
               source = ''offline'',
               based_on_track = None\<rparr>])
            rows)"

text \<open>Lines 191-203: the loop over the head of the popularity table.\<close>

fun add_popular :: "RecommendationService \<Rightarrow> TrackRecommendation list \<Rightarrow> popular_row list
    \<Rightarrow> TrackRecommendation list" where
  "add_popular service recs [] = recs"
| "add_popular service recs (row # rows) =
     (case get_track_info service (popular_track_id row) of
        None \<Rightarrow> add_popular service recs rows
      | Some track_info \<Rightarrow>
          if \<not> list_ex (\<lambda>r. track_id r = popular_track_id row) recs
          then
            add_popular service
              (recs @
               [\<lparr>track_id = popular_track_id row,
                 track_name = info_track_name track_info,
                 artists = artist_names track_info,
                 genres = genre_names track_info,
                 score = Finite (of_int (case popular_users row of Some u \<Rightarrow> u | None \<Rightarrow> 1)),
                 rec_type = ''top_popular'',
                 source = ''offline'',
                 based_on_track = None\<rparr>])
              rows
          else add_popular service recs rows)"

text \<open>Lines 212-227: the loop over the sampled catalog rows.\<close>

fun add_random :: "TrackRecommendation list \<Rightarrow> item_row list \<Rightarrow> TrackRecommendation list" where
  "add_random recs [] = recs"
| "add_random recs (row # rows) =
     (if \<not> list_ex (\<lambda>r. track_id r = item_track_id row) recs
      then
        add_random
          (recs @
           [\<lparr>track_id = item_track_id row,
             track_name = item_track_name row,
             artists = list_cell (item_artist_names row),
             genres = list_cell (item_genre_names row),
             score = double_0_1,
             rec_type = ''random'',
             source = ''offline'',
             based_on_track = None\<rparr>])
          rows
      else add_random recs rows)"

text \<open>
  \<open>sample items n\<close> stands for \<open>items_df.sample(n)\<close>, the random draw of \<open>n\<close> rows
  of the catalog; the generator is a function of the draw.
\<close>

definition get_offline_recommendations ::
  "RecommendationService \<Rightarrow> (item_row list \<Rightarrow> nat \<Rightarrow> item_row list) \<Rightarrow> int \<Rightarrow> int
    \<Rightarrow> TrackRecommendation list" where
  "get_offline_recommendations service sample uid limit =
     (let recs1 =
            (case personal_recs_df service of
               None \<Rightarrow> []
             | Some df \<Rightarrow>
                 add_personal service []
                   (py_take limit (filter (\<lambda>row. personal_user_id row = uid) df)));
          recs2 =
            (if int (length recs1) < limit
             then
               (case top_popular_df service of
                  None \<Rightarrow> recs1
                | Some df \<Rightarrow> add_popular service recs1 (py_take (limit - int (length recs1)) df))
             else recs1);
          recs3 =
            (if int (length recs2) < limit
             then
               (case items_df service of
                  None \<Rightarrow> recs2
                | Some items \<Rightarrow>
                    add_random recs2
                      (sample items (nat (min (limit - int (length recs2)) (int (length items))))))
             else recs2)
      in py_take limit recs3)"

section \<open>Online candidate generator\<close>

text \<open>Lines 246-248: the rows of a seed, by descending similarity, the first three.\<close>

definition similar_tracks_of :: "similar_row list \<Rightarrow> int \<Rightarrow> similar_row list" where
  "similar_tracks_of df tid =
     take 3
       (sort_values_descending similarity_score (filter (\<lambda>row. seed_track_id row = tid) df))"

fun add_similar :: "RecommendationService \<Rightarrow> int \<Rightarrow> TrackRecommendation list \<Rightarrow> similar_row list
    \<Rightarrow> TrackRecommendation list" where
  "add_similar service tid recs [] = recs"
| "add_similar service tid recs (similar_row # rows) =
     (case get_track_info service (similar_track_id similar_row) of
        None \<Rightarrow> add_similar service tid recs rows
      | Some track_info \<Rightarrow>
          add_similar service tid
            (recs @
             [\<lparr>track_id = similar_track_id similar_row,
               track_name = info_track_name track_info,
               artists = artist_names track_info,
               genres = genre_names track_info,
               score = similarity_score similar_row,
               rec_type = ''similar_to_history'',
               source = ''online'',
               based_on_track = Some tid\<rparr>])
            rows)"

fun add_recent :: "RecommendationService \<Rightarrow> similar_row list \<Rightarrow> TrackRecommendation list \<Rightarrow> int list
    \<Rightarrow> TrackRecommendation list" where
  "add_recent service df recs [] = recs"
| "add_recent service df recs (tid # recent_tracks) =
     add_recent service df (add_similar service tid recs (similar_tracks_of df tid)) recent_tracks"

text \<open>Lines 267-272: first occurrences, with the set \<open>seen\<close>.\<close>

fun unique_loop :: "int set \<Rightarrow> TrackRecommendation list \<Rightarrow> TrackRecommendation list
    \<Rightarrow> TrackRecommendation list" where
  "unique_loop seen unique_recs [] = unique_recs"
| "unique_loop seen unique_recs (r # recs) =
     (if track_id r \<notin> seen
      then unique_loop (insert (track_id r) seen) (unique_recs @ [r]) recs
      else unique_loop seen unique_recs recs)"

definition online_unique_recs :: "RecommendationService \<Rightarrow> similar_row list \<Rightarrow> int list
    \<Rightarrow> TrackRecommendation list" where
  "online_unique_recs service df user_history =
     unique_loop {} [] (add_recent service df [] (py_drop (- 5) user_history))"

definition get_online_recommendations :: "RecommendationService \<Rightarrow> int list \<Rightarrow> int
    \<Rightarrow> TrackRecommendation list" where
  "get_online_recommendations service user_history limit =
     (if user_history = [] then []
      else
        (case similar_df service of
           None \<Rightarrow> []
         | Some df \<Rightarrow>
             py_take limit (py_sorted_reverse score (online_unique_recs service df user_history))))"

section \<open>Blender\<close>

text \<open>Lines 313-314: the two quotas.\<close>

definition offline_limit_of :: "int \<Rightarrow> py_error + int" where
  "offline_limit_of total_limit = int_mul_0_7 total_limit"

definition online_limit_of :: "int \<Rightarrow> py_error + int" where
  "online_limit_of total_limit =
     (case offline_limit_of total_limit of
        Inl e \<Rightarrow> Inl e
      | Inr offline_limit \<Rightarrow> Inr (total_limit - offline_limit))"

text \<open>Lines 321-323: the loop over \<open>online_recs[:online_limit]\<close>, appending to \<open>blended\<close>.\<close>

fun add_online :: "int set \<Rightarrow> TrackRecommendation list \<Rightarrow> TrackRecommendation list
    \<Rightarrow> TrackRecommendation list" where
  "add_online offline_track_ids blended [] = blended"
| "add_online offline_track_ids blended (online_rec # rest) =
     (if track_id online_rec \<notin> offline_track_ids
      then add_online offline_track_ids (blended @ [online_rec]) rest
      else add_online offline_track_ids blended rest)"

definition blend_with :: "TrackRecommendation list \<Rightarrow> TrackRecommendation list \<Rightarrow> int \<Rightarrow> int
    \<Rightarrow> TrackRecommendation list" where
  "blend_with offline_recs online_recs total_limit offline_limit =
     (let online_limit = total_limit - offline_limit;
          blended0 = py_take offline_limit offline_recs;
          offline_track_ids = set (map track_id blended0);
          blended1 = add_online offline_track_ids blended0 (py_take online_limit online_recs);
          blended2 =
            (if int (length blended1) < total_limit
             then
               let remaining = total_limit - int (length blended1);
                   additional_offline =
                     filter (\<lambda>r. track_id r \<notin> set (map track_id blended1))
                       (py_drop offline_limit offline_recs)
               in blended1 @ py_take remaining additional_offline
             else blended1)
      in py_take total_limit blended2)"

definition blend_recommendations :: "TrackRecommendation list \<Rightarrow> TrackRecommendation list
    \<Rightarrow> int \<Rightarrow> py_error + TrackRecommendation list" where
  "blend_recommendations offline_recs online_recs total_limit =
     (case offline_limit_of total_limit of
        Inl e \<Rightarrow> Inl e
      | Inr offline_limit \<Rightarrow> Inr (blend_with offline_recs online_recs total_limit offline_limit))"

section \<open>HTTP operations\<close>

datatype http_error = HTTPException int string

record Statistics =
  total_recommendations :: nat
  offline_count :: nat
  online_count :: nat
  stats_user_id :: int
  online_history_provided :: bool

record RecommendationResponse =
  user_id :: int
  recommendations :: "TrackRecommendation list"
  statistics :: Statistics
  timestamp :: string

text \<open>\<open>GET /health\<close>; \<open>now\<close> is the clock's ISO timestamp.\<close>

definition health :: "RecommendationService \<Rightarrow> string \<Rightarrow> HealthResponse" where
  "health service now =
     (let data_status =
            (items_df service \<noteq> None \<and>
             (personal_recs_df service \<noteq> None \<or> top_popular_df service \<noteq> None))
      in \<lparr>status = (if data_status then ''healthy'' else ''degraded''),
          data_loaded = data_status,
          health_timestamp = now\<rparr>)"

text \<open>\<open>GET /track/{track_id}\<close>.\<close>

definition get_track_info_endpoint :: "RecommendationService \<Rightarrow> int \<Rightarrow> http_error + TrackInfo" where
  "get_track_info_endpoint service tid =
     (case get_track_info service tid of
        None \<Rightarrow> Inl (HTTPException 404 ''Track not found'')
      | Some track_info \<Rightarrow> Inr track_info)"

subsection \<open>Parsing the history parameter\<close>

text \<open>
  \<open>s.split(',')\<close>, \<open>x.strip()\<close> and \<open>int(x)\<close> on ASCII text: \<open>int\<close> accepts
  surrounding whitespace, one sign, and decimal digits with single underscores between
  them, and raises ValueError otherwise (\<open>None\<close> here).  The interpreter's cap on the number of digits
  is not part of the model.
\<close>

fun split_comma :: "string \<Rightarrow> string list" where
  "split_comma [] = [[]]"
| "split_comma (c # cs) =
     (if c = CHR '','' then [] # split_comma cs
      else (case split_comma cs of [] \<Rightarrow> [[c]] | w # ws \<Rightarrow> (c # w) # ws))"

definition is_space :: "char \<Rightarrow> bool" where
  "is_space c = (let n = (of_char c :: nat) in (9 \<le> n \<and> n \<le> 13) \<or> (28 \<le> n \<and> n \<le> 32))"

definition py_strip :: "string \<Rightarrow> string" where
  "py_strip s = rev (dropWhile is_space (rev (dropWhile is_space s)))"

definition digit_val :: "char \<Rightarrow> int option" where
  "digit_val c =
     (let n = (of_char c :: nat) in if 48 \<le> n \<and> n \<le> 57 then Some (int n - 48) else None)"

fun digits_from :: "int \<Rightarrow> string \<Rightarrow> int option" where
  "digits_from acc [] = Some acc"
| "digits_from acc [c] =
     (case digit_val c of None \<Rightarrow> None | Some v \<Rightarrow> Some (acc * 10 + v))"
| "digits_from acc (c # d # cs) =
     (if c = CHR ''_''
      then (case digit_val d of None \<Rightarrow> None | Some v \<Rightarrow> digits_from (acc * 10 + v) cs)
      else (case digit_val c of None \<Rightarrow> None | Some v \<Rightarrow> digits_from (acc * 10 + v) (d # cs)))"

definition unsigned_int :: "string \<Rightarrow> int option" where
  "unsigned_int s =
     (case s of
        [] \<Rightarrow> None
      | d # ds \<Rightarrow> (case digit_val d of None \<Rightarrow> None | Some v \<Rightarrow> digits_from v ds))"

definition py_int :: "string \<Rightarrow> int option" where
  "py_int s =
     (case py_strip s of
        [] \<Rightarrow> None
      | c # cs \<Rightarrow>
          if c = CHR ''-'' then map_option uminus (unsigned_int cs)
          else if c = CHR ''+'' then unsigned_int cs
          else unsigned_int (c # cs))"

fun all_ints :: "string list \<Rightarrow> int list option" where
  "all_ints [] = Some []"
| "all_ints (x # xs) =
     (case py_int (py_strip x) of
        None \<Rightarrow> None
      | Some n \<Rightarrow> (case all_ints xs of None \<Rightarrow> None | Some ns \<Rightarrow> Some (n # ns)))"

text \<open>Lines 375-380: an absent or empty parameter leaves the history empty.\<close>

definition parse_online_history :: "string option \<Rightarrow> http_error + int list" where
  "parse_online_history online_history =
     (case online_history of
        None \<Rightarrow> Inr []
      | Some s \<Rightarrow>
          if s = [] then Inr []
          else
            (case all_ints (split_comma s) of
               None \<Rightarrow> Inl (HTTPException 400 ''Invalid online_history format'')
             | Some h \<Rightarrow> Inr h))"

text \<open>\<open>GET /recommend/{user_id}\<close>.\<close>

definition get_recommendations ::
  "RecommendationService \<Rightarrow> (item_row list \<Rightarrow> nat \<Rightarrow> item_row list) \<Rightarrow> string \<Rightarrow> int \<Rightarrow> int
    \<Rightarrow> string option \<Rightarrow> http_error + RecommendationResponse" where
  "get_recommendations service sample now uid limit online_history =
     (if limit \<le> 0 \<or> limit > 100 then Inl (HTTPException 400 ''Limit must be between 1 and 100'')
      else
        (case parse_online_history online_history of
           Inl e \<Rightarrow> Inl e
         | Inr user_online_history \<Rightarrow>
             let offline_recs = get_offline_recommendations service sample uid limit;
                 online_recs = get_online_recommendations service user_online_history limit
             in
               (case blend_recommendations offline_recs online_recs limit of
                  Inl e \<Rightarrow> Inl (HTTPException 500 ''Internal server error'')
                | Inr final_recommendations \<Rightarrow>
                    Inr \<lparr>user_id = uid,
                         recommendations = final_recommendations,
                         statistics =
                           \<lparr>total_recommendations = length final_recommendations,
                             offline_count = length offline_recs,
                             online_count = length online_recs,
                             stats_user_id = uid,
                             online_history_provided = (0 < length user_online_history)\<rparr>,
                         timestamp = now\<rparr>)))"

section \<open>Example stores\<close>

definition ex_item :: "int \<Rightarrow> item_row" where
  "ex_item n = \<lparr>item_track_id = n, item_track_name = ''track'',
     item_artist_names = Some [''artist''], item_genre_names = None\<rparr>"

text \<open>One possible draw: the first \<open>n\<close> rows.\<close>

definition ex_sample :: "item_row list \<Rightarrow> nat \<Rightarrow> item_row list" where
  "ex_sample items n = take n items"

definition ex_no_catalog :: RecommendationService where
  "ex_no_catalog = \<lparr>items_df = None, similar_df = Some [],
     personal_recs_df =
       Some [\<lparr>personal_user_id = 5, personal_track_id = 1, personal_score = None\<rparr>],
     top_popular_df = Some [\<lparr>popular_track_id = 2, popular_users = Some 100\<rparr>]\<rparr>"

definition ex_catalog :: RecommendationService where
  "ex_catalog = \<lparr>items_df = Some [ex_item 1, ex_item 2, ex_item 3], similar_df = None,
     personal_recs_df = None, top_popular_df = None\<rparr>"

definition ex_rec :: "int \<Rightarrow> TrackRecommendation" where
  "ex_rec n = \<lparr>track_id = n, track_name = ''track'', artists = [''artist''], genres = [],
     score = Finite 1, rec_type = ''personal_als'', source = ''offline'', based_on_track = None\<rparr>"

definition ex_similar :: "int \<Rightarrow> int \<Rightarrow> py_float \<Rightarrow> similar_row" where
  "ex_similar seed other s =
     \<lparr>seed_track_id = seed, similar_track_id = other, similarity_score = s\<rparr>"


text \<open>Two seeds with three similar tracks each, all in the catalog.\<close>

definition ex_online :: RecommendationService where
  "ex_online =
     \<lparr>items_df = Some (map ex_item ([101..120] @ [11..16])),
      similar_df =
        Some [ex_similar 1 11 (Finite (9 / 10)), ex_similar 1 12 (Finite (8 / 10)),
              ex_similar 1 13 (Finite (7 / 10)), ex_similar 2 14 (Finite (6 / 10)),
              ex_similar 2 15 (Finite (5 / 10)), ex_similar 2 16 (Finite (4 / 10))],
      personal_recs_df = None,
      top_popular_df = None\<rparr>"

text \<open>
  Two seeds that share a similar track, with two similarities equal; the row of a third
  seed has the similarity NaN.
\<close>

definition ex_ties_table :: "similar_row list" where
  "ex_ties_table =
     [ex_similar 1 11 (Finite (9 / 10)), ex_similar 1 12 (Finite (1 / 2)),
      ex_similar 2 13 (Finite (1 / 2)),
      ex_similar 2 11 (Finite (19 / 20)), ex_similar 2 14 (Finite (7 / 10)),
      ex_similar 3 12 NaN]"

definition ex_ties :: RecommendationService where
  "ex_ties =
     \<lparr>items_df = Some (map ex_item [11, 12, 13, 14]),
      similar_df = Some ex_ties_table,
      personal_recs_df = None,
      top_popular_df = None\<rparr>"




text \<open>Three seeds with one similar track each; the second similarity is NaN.\<close>

definition ex_nan :: RecommendationService where
  "ex_nan =
     \<lparr>items_df = Some (map ex_item [11, 12, 13]),
      similar_df =
        Some [ex_similar 1 11 (Finite 1), ex_similar 2 12 NaN, ex_similar 3 13 (Finite 2)],
      personal_recs_df = None,
      top_popular_df = None\<rparr>"

section \<open>The order of a candidate list\<close>

text \<open>
  A list is descending by score when \<open>score b <= score a\<close> holds for every
  candidate \<open>a\<close> and every candidate \<open>b\<close> that comes after it.
\<close>

definition descending_by_score :: "TrackRecommendation list \<Rightarrow> bool" where
  "descending_by_score recs = sorted_wrt (\<lambda>a b. float_le (score b) (score a)) recs"

section \<open>The online fill in the words of the specification\<close>


section \<open>Slices\<close>

lemma py_take_Nil: "py_take n [] = []"
  by (simp add: py_take_def)

lemma py_take_is_take: "\<exists>k. py_take n xs = take k xs"
  by (auto simp: py_take_def)

lemma py_drop_is_drop: "\<exists>k. py_drop n xs = drop k xs"
  by (auto simp: py_drop_def)

lemma py_take_py_drop: "py_take n xs @ py_drop n xs = xs"
  by (simp add: py_take_def py_drop_def)

lemma set_py_take_subset: "set (py_take n xs) \<subseteq> set xs"
  by (simp add: py_take_def set_take_subset)

lemma length_py_take: "0 \<le> n \<Longrightarrow> int (length (py_take n xs)) \<le> n"
  by (simp add: py_take_def)


lemma distinct_map_py_take: "distinct (map f xs) \<Longrightarrow> distinct (map f (py_take n xs))"
proof -
  assume d: "distinct (map f xs)"
  obtain k where "py_take n xs = take k xs" using py_take_is_take by blast
  then show ?thesis using d by (simp add: take_map [symmetric])
qed

lemma sorted_wrt_py_take: "sorted_wrt R xs \<Longrightarrow> sorted_wrt R (py_take n xs)"
proof -
  assume s: "sorted_wrt R xs"
  obtain k where "py_take n xs = take k xs" using py_take_is_take by blast
  then show ?thesis using s by simp
qed

lemma filter_take_is_take: "\<exists>j. filter P (take k xs) = take j (filter P xs)"
proof (induction xs arbitrary: k)
  case Nil
  then show ?case by simp
next
  case (Cons x xs)
  show ?case
  proof (cases k)
    case 0
    then show ?thesis by (intro exI [of _ 0]) simp
  next
    case (Suc m)
    from Cons.IH [of m] obtain j where j: "filter P (take m xs) = take j (filter P xs)" by blast
    show ?thesis
    proof (cases "P x")
      case True
      with Suc j show ?thesis by (intro exI [of _ "Suc j"]) simp
    next
      case False
      with Suc j show ?thesis by (intro exI [of _ j]) simp
    qed
  qed
qed

section \<open>The sort on keys without NaN\<close>

lemma float_lt_rank: "a \<noteq> NaN \<Longrightarrow> b \<noteq> NaN \<Longrightarrow> float_lt a b = (float_rank a < float_rank b)"
  by (cases a; cases b) (simp_all add: float_rank_def)

lemma float_le_rank: "a \<noteq> NaN \<Longrightarrow> b \<noteq> NaN \<Longrightarrow> float_le a b = (float_rank a \<le> float_rank b)"
  by (simp add: float_le_def float_lt_rank not_less)

lemma count_run_ascending_sorted:
  assumes "\<forall>a\<in>insert prev (set xs). \<forall>b\<in>insert prev (set xs). lt a b = (k a < k b)"
  shows "n \<le> count_run_ascending lt prev xs n
     \<and> count_run_ascending lt prev xs n \<le> n + length xs
     \<and> sorted (map k (prev # take (count_run_ascending lt prev xs n - n) xs))"
  using assms
proof (induction xs arbitrary: prev n)
  case Nil
  then show ?case by simp
next
  case (Cons x xs)
  show ?case
  proof (cases "lt x prev")
    case True
    then show ?thesis by simp
  next
    case False
    with Cons.prems have le: "k prev \<le> k x" by (simp add: not_less)
    from Cons.prems have
      "\<forall>a\<in>insert x (set xs). \<forall>b\<in>insert x (set xs). lt a b = (k a < k b)"
      by simp
    from Cons.IH [OF this, of "Suc n"] have
      ih: "Suc n \<le> count_run_ascending lt x xs (Suc n)"
        "count_run_ascending lt x xs (Suc n) \<le> Suc n + length xs"
        "sorted (map k (x # take (count_run_ascending lt x xs (Suc n) - Suc n) xs))"
      by simp_all
    define m where "m = count_run_ascending lt x xs (Suc n)"
    have res: "count_run_ascending lt prev (x # xs) n = m"
      using False by (simp add: m_def)
    from ih(1) have "m - n = Suc (m - Suc n)" unfolding m_def by simp
    then have tk: "take (m - n) (x # xs) = x # take (m - Suc n) xs" by simp
    from ih(3) have "\<forall>y\<in>set (take (m - Suc n) xs). k x \<le> k y"
      and s: "sorted (map k (x # take (m - Suc n) xs))"
      unfolding m_def by simp_all
    with le have "\<forall>y\<in>set (x # take (m - Suc n) xs). k prev \<le> k y"
      by (auto intro: order_trans)
    with s have "sorted (map k (prev # x # take (m - Suc n) xs))"
      by simp
    with ih(1,2) show ?thesis
      unfolding res tk m_def [symmetric] by simp
  qed
qed

lemma count_run_descending_sorted:
  fixes k :: "'a \<Rightarrow> 'k::linorder"
  assumes "\<forall>a\<in>insert prev (set xs). \<forall>b\<in>insert prev (set xs). lt a b = (k a < k b)"
  shows "n \<le> count_run_descending lt prev xs n
     \<and> count_run_descending lt prev xs n \<le> n + length xs
     \<and> sorted_wrt (\<lambda>a b. k b < k a) (prev # take (count_run_descending lt prev xs n - n) xs)"
  using assms
proof (induction xs arbitrary: prev n)
  case Nil
  then show ?case by simp
next
  case (Cons x xs)
  show ?case
  proof (cases "lt x prev")
    case False
    then show ?thesis by simp
  next
    case True
    with Cons.prems have less: "k x < k prev" by simp
    from Cons.prems have
      "\<forall>a\<in>insert x (set xs). \<forall>b\<in>insert x (set xs). lt a b = (k a < k b)"
      by simp
    from Cons.IH [OF this, of "Suc n"] have
      ih: "Suc n \<le> count_run_descending lt x xs (Suc n)"
        "count_run_descending lt x xs (Suc n) \<le> Suc n + length xs"
        "sorted_wrt (\<lambda>a b. k b < k a) (x # take (count_run_descending lt x xs (Suc n) - Suc n) xs)"
      by simp_all
    define m where "m = count_run_descending lt x xs (Suc n)"
    have res: "count_run_descending lt prev (x # xs) n = m"
      using True by (simp add: m_def)
    from ih(1) have "m - n = Suc (m - Suc n)" unfolding m_def by simp
    then have tk: "take (m - n) (x # xs) = x # take (m - Suc n) xs" by simp
    from ih(3) have below: "\<forall>y\<in>set (take (m - Suc n) xs). k y < k x"
      and s: "sorted_wrt (\<lambda>a b. k b < k a) (x # take (m - Suc n) xs)"
      unfolding m_def by simp_all
    have "k y < k prev" if "y \<in> set (x # take (m - Suc n) xs)" for y
    proof (cases "y = x")
      case True
      with less show ?thesis by simp
    next
      case False
      with that have "y \<in> set (take (m - Suc n) xs)" by simp
      with below have "k y < k x" by blast
      then show ?thesis using less by (rule less_trans)
    qed
    with s have "sorted_wrt (\<lambda>a b. k b < k a) (prev # x # take (m - Suc n) xs)"
      by simp
    with ih(1,2) show ?thesis
      unfolding res tk m_def [symmetric] by simp
  qed
qed

lemma bisect_right_spec:
  assumes "sorted (map k xs)"
    and "\<forall>y\<in>set xs. lt pivot y = (k pivot < k y)"
    and "l \<le> r" and "r \<le> length xs"
    and "\<forall>i<l. k (xs ! i) \<le> k pivot"
    and "\<forall>i. r \<le> i \<and> i < length xs \<longrightarrow> k pivot < k (xs ! i)"
  shows "bisect_right lt pivot xs l r \<le> length xs
     \<and> (\<forall>i<bisect_right lt pivot xs l r. k (xs ! i) \<le> k pivot)
     \<and> (\<forall>i. bisect_right lt pivot xs l r \<le> i \<and> i < length xs \<longrightarrow> k pivot < k (xs ! i))"
  using assms
proof (induction lt pivot xs l r rule: bisect_right.induct)
  case (1 lt pivot xs l r)
  show ?case
  proof (cases "l < r")
    case False
    with "1.prems" have "l = r" by simp
    with "1.prems" False show ?thesis
      by (subst (1 2 3) bisect_right.simps) simp
  next
    case True
    define p where "p = l + (r - l) div 2"
    from True have p: "l \<le> p" "p < r" unfolding p_def by simp_all
    with "1.prems" have pl: "p < length xs" by simp
    show ?thesis
    proof (cases "lt pivot (xs ! p)")
      case lt: True
      with "1.prems"(2) pl have less: "k pivot < k (xs ! p)" by simp
      have up: "\<forall>i. p \<le> i \<and> i < length xs \<longrightarrow> k pivot < k (xs ! i)"
      proof (intro allI impI)
        fix i assume i: "p \<le> i \<and> i < length xs"
        with "1.prems"(1) have "k (xs ! p) \<le> k (xs ! i)"
          by (simp add: sorted_iff_nth_mono)
        with less show "k pivot < k (xs ! i)" by simp
      qed
      have eq: "bisect_right lt pivot xs l r = bisect_right lt pivot xs l p"
        using True lt by (subst bisect_right.simps) (simp add: p_def Let_def)
      from "1.IH"(1) [OF True p_def lt "1.prems"(1) "1.prems"(2) p(1) less_imp_le [OF pl]
          "1.prems"(5) up]
      show ?thesis unfolding eq .
    next
      case ge: False
      with "1.prems"(2) pl have le: "k (xs ! p) \<le> k pivot" by (simp add: not_less)
      have low: "\<forall>i<p + 1. k (xs ! i) \<le> k pivot"
      proof (intro allI impI)
        fix i assume i: "i < p + 1"
        with pl "1.prems"(1) have "k (xs ! i) \<le> k (xs ! p)"
          by (simp add: sorted_iff_nth_mono)
        with le show "k (xs ! i) \<le> k pivot" by simp
      qed
      have eq: "bisect_right lt pivot xs l r = bisect_right lt pivot xs (p + 1) r"
        using True ge by (subst bisect_right.simps) (simp add: p_def Let_def)
      from p have "p + 1 \<le> r" by simp
      from "1.IH"(2) [OF True p_def ge "1.prems"(1) "1.prems"(2) this "1.prems"(4) low "1.prems"(6)]
      show ?thesis unfolding eq .
    qed
  qed
qed

lemma mset_insert_at: "mset (take l run @ pivot # drop l run) = add_mset pivot (mset run)"
proof -
  have "mset (take l run @ pivot # drop l run) = add_mset pivot (mset (take l run @ drop l run))"
    by (simp only: mset_append mset.simps union_mset_add_mset_right)
  then show ?thesis by (simp only: append_take_drop_id)
qed

lemma mset_binarysort: "mset (binarysort lt run rest) = mset run + mset rest"
  by (induction rest arbitrary: run) (simp_all add: Let_def mset_insert_at del: mset_append)

lemma mset_list_sort: "mset (list_sort lt xs) = mset xs"
proof -
  have "mset (take n xs) + mset (drop n xs) = mset xs" for n
    by (simp only: mset_append [symmetric] append_take_drop_id)
  then show ?thesis
    by (simp add: list_sort_def mset_binarysort split: prod.split)
qed

lemma insert_at_bisect:
  fixes k :: "'a \<Rightarrow> 'k::linorder"
  assumes s: "sorted (map k run)"
    and a: "\<forall>y\<in>set run. lt pivot y = (k pivot < k y)"
  defines "l \<equiv> bisect_right lt pivot run 0 (length run)"
  shows "sorted (map k (take l run @ pivot # drop l run))"
    and "filter (\<lambda>y. k y = c) (take l run @ pivot # drop l run)
         = filter (\<lambda>y. k y = c) (run @ [pivot])"
proof -
  have h5: "\<forall>i<0. k (run ! i) \<le> k pivot" by simp
  have h6: "\<forall>i. length run \<le> i \<and> i < length run \<longrightarrow> k pivot < k (run ! i)" by auto
  note spec = bisect_right_spec [where k = k and xs = run and lt = lt and pivot = pivot
      and l = 0 and r = "length run", OF s a le0 order_refl h5 h6]
  from spec have l: "l \<le> length run"
    and low: "\<forall>i<l. k (run ! i) \<le> k pivot"
    and high: "\<forall>i. l \<le> i \<and> i < length run \<longrightarrow> k pivot < k (run ! i)"
    unfolding l_def by blast+
  have before: "k y \<le> k pivot" if "y \<in> set (take l run)" for y
  proof -
    from that obtain i where "i < length (take l run)" and "take l run ! i = y"
      by (auto simp: in_set_conv_nth)
    with low show ?thesis by auto
  qed
  have after: "k pivot < k y" if "y \<in> set (drop l run)" for y
  proof -
    from that obtain i where i: "i < length (drop l run)" and y: "drop l run ! i = y"
      by (auto simp: in_set_conv_nth)
    from i l have "l + i < length run" by simp
    with high have "k pivot < k (run ! (l + i))" by simp
    with y l show ?thesis by simp
  qed
  have st: "sorted (map k (take l run))" and sd: "sorted (map k (drop l run))"
    using s by (simp_all add: sorted_map sorted_wrt_take sorted_wrt_drop)
  have cross: "k x \<le> k y" if "x \<in> set (take l run)" and "y \<in> set (drop l run)" for x y
    using before [OF that(1)] after [OF that(2)] by simp
  show "sorted (map k (take l run @ pivot # drop l run))"
    using st sd before after cross by (auto simp: sorted_append less_imp_le)
  have none: "filter (\<lambda>y. k y = c) (drop l run) = []" if "k pivot = c"
  proof -
    have "k y \<noteq> c" if "y \<in> set (drop l run)" for y
      using after [OF that] \<open>k pivot = c\<close> by simp
    then show ?thesis by (simp add: filter_empty_conv)
  qed
  have split: "filter (\<lambda>y. k y = c) run
      = filter (\<lambda>y. k y = c) (take l run) @ filter (\<lambda>y. k y = c) (drop l run)"
    by (simp only: filter_append [symmetric] append_take_drop_id)
  show "filter (\<lambda>y. k y = c) (take l run @ pivot # drop l run)
         = filter (\<lambda>y. k y = c) (run @ [pivot])"
  proof (cases "k pivot = c")
    case True
    with none split show ?thesis by simp
  next
    case False
    with split show ?thesis by simp
  qed
qed

lemma binarysort_stable_sort:
  fixes k :: "'a \<Rightarrow> 'k::linorder"
  assumes "sorted (map k run)"
    and "\<forall>a\<in>set run \<union> set rest. \<forall>b\<in>set run \<union> set rest. lt a b = (k a < k b)"
  shows "sorted (map k (binarysort lt run rest))
     \<and> (\<forall>c. filter (\<lambda>y. k y = c) (binarysort lt run rest) = filter (\<lambda>y. k y = c) (run @ rest))"
  using assms
proof (induction rest arbitrary: run)
  case Nil
  then show ?case by simp
next
  case (Cons pivot rest)
  define l where "l = bisect_right lt pivot run 0 (length run)"
  let ?run = "take l run @ pivot # drop l run"
  from Cons.prems(2) have a: "\<forall>y\<in>set run. lt pivot y = (k pivot < k y)" by simp
  have s: "sorted (map k ?run)"
    unfolding l_def using Cons.prems(1) a by (rule insert_at_bisect(1))
  have f: "filter (\<lambda>y. k y = c) ?run = filter (\<lambda>y. k y = c) (run @ [pivot])" for c
    unfolding l_def using Cons.prems(1) a by (rule insert_at_bisect(2))
  have "set ?run = insert pivot (set (take l run @ drop l run))"
    by (simp only: set_append list.set) blast
  then have "set ?run = insert pivot (set run)"
    by (simp only: append_take_drop_id)
  with Cons.prems(2) have
    "\<forall>a\<in>set ?run \<union> set rest. \<forall>b\<in>set ?run \<union> set rest. lt a b = (k a < k b)"
    by simp
  from Cons.IH [OF s this] have
    "sorted (map k (binarysort lt ?run rest))"
    and "\<forall>c. filter (\<lambda>y. k y = c) (binarysort lt ?run rest) = filter (\<lambda>y. k y = c) (?run @ rest)"
    by simp_all
  moreover have "binarysort lt run (pivot # rest) = binarysort lt ?run rest"
    by (simp add: l_def Let_def)
  moreover have "filter (\<lambda>y. k y = c) (?run @ rest) = filter (\<lambda>y. k y = c) (run @ pivot # rest)" for c
    using f [of c] by (simp only: filter_append) simp
  ultimately show ?case by simp
qed

lemma filter_rev_distinct_keys:
  assumes "distinct (map k xs)"
  shows "filter (\<lambda>y. k y = c) (rev xs) = filter (\<lambda>y. k y = c) xs"
proof -
  from assms have "length (filter (\<lambda>y. k y = c) xs) \<le> 1"
  proof (induction xs)
    case Nil
    then show ?case by simp
  next
    case (Cons x xs)
    show ?case
    proof (cases "k x = c")
      case True
      have "k y \<noteq> c" if "y \<in> set xs" for y
      proof
        assume "k y = c"
        with True that have "k x \<in> k ` set xs" by (metis imageI)
        with Cons.prems show False by simp
      qed
      then have "filter (\<lambda>y. k y = c) xs = []"
        by (simp add: filter_empty_conv)
      with True show ?thesis by simp
    next
      case False
      with Cons show ?thesis by simp
    qed
  qed
  then have "rev (filter (\<lambda>y. k y = c) xs) = filter (\<lambda>y. k y = c) xs"
    by (cases "filter (\<lambda>y. k y = c) xs") simp_all
  then show ?thesis by (simp only: rev_filter)
qed

lemma list_sort_is_sort_key:
  fixes k :: "'a \<Rightarrow> 'k::linorder"
  assumes a: "\<forall>a\<in>set xs. \<forall>b\<in>set xs. lt a b = (k a < k b)"
  shows "list_sort lt xs = sort_key k xs"
proof (cases "length xs < 2")
  case True
  then have "xs = [] \<or> (\<exists>x. xs = [x])"
    by (cases xs) (auto simp: length_Suc_conv)
  then show ?thesis using True by (auto simp: list_sort_def)
next
  case False
  then obtain x y zs where xs: "xs = x # y # zs"
    by (cases xs; cases "tl xs") auto
  obtain n descending where cr: "count_run lt xs = (n, descending)"
    by (cases "count_run lt xs")
  define run where "run = (if descending then rev (take n xs) else take n xs)"
  have out: "list_sort lt xs = binarysort lt run (drop n xs)"
    using False cr by (simp add: list_sort_def run_def)
  from a have a': "\<forall>a\<in>insert y (set zs). \<forall>b\<in>insert y (set zs). lt a b = (k a < k b)"
    by (simp add: xs)
  have run: "sorted (map k run) \<and> (\<forall>c. filter (\<lambda>y. k y = c) run = filter (\<lambda>y. k y = c) (take n xs))"
  proof (cases "lt y x")
    case True
    define m where "m = count_run_descending lt y zs 2"
    from True cr have n: "n = m" and d: "descending"
      by (simp_all add: xs m_def)
    from count_run_descending_sorted [OF a', of 2] have
      m2: "2 \<le> m" and sw: "sorted_wrt (\<lambda>a b. k b < k a) (y # take (m - 2) zs)"
      unfolding m_def by simp_all
    from m2 have "m = Suc (Suc (m - 2))" by simp
    then have tk: "take m xs = x # y # take (m - 2) zs"
      unfolding xs by (metis take_Suc_Cons)
    from True a have "k y < k x" by (simp add: xs)
    have "k z < k x" if "z \<in> set (y # take (m - 2) zs)" for z
    proof (cases "z = y")
      case True
      with \<open>k y < k x\<close> show ?thesis by simp
    next
      case False
      with that sw have "k z < k y" by auto
      then show ?thesis using \<open>k y < k x\<close> by (rule less_trans)
    qed
    with sw have "sorted_wrt (\<lambda>a b. k b < k a) (take m xs)"
      unfolding tk by simp
    then have "sorted_wrt (\<lambda>a b. b < a) (map k (take m xs))"
      by (simp add: sorted_wrt_map)
    then have "sorted_wrt (<) (rev (map k (take m xs)))"
      by (simp add: sorted_wrt_rev)
    then have "sorted (rev (map k (take m xs)))" and dk: "distinct (rev (map k (take m xs)))"
      by (simp_all add: strict_sorted_iff)
    then have "sorted (map k (rev (take m xs)))"
      by (simp add: rev_map)
    moreover from dk have "distinct (map k (take m xs))" by simp
    then have "filter (\<lambda>y. k y = c) (rev (take m xs)) = filter (\<lambda>y. k y = c) (take m xs)" for c
      by (rule filter_rev_distinct_keys)
    ultimately show ?thesis
      using n d by (simp add: run_def)
  next
    case False
    define m where "m = count_run_ascending lt y zs 2"
    from False cr have n: "n = m" and d: "\<not> descending"
      by (simp_all add: xs m_def)
    from count_run_ascending_sorted [OF a', of 2] have
      m2: "2 \<le> m" and sw: "sorted (map k (y # take (m - 2) zs))"
      unfolding m_def by simp_all
    from m2 have "m = Suc (Suc (m - 2))" by simp
    then have tk: "take m xs = x # y # take (m - 2) zs"
      unfolding xs by (metis take_Suc_Cons)
    from False a have xy: "k x \<le> k y" by (simp add: xs not_less)
    have "k x \<le> k z" if "z \<in> set (y # take (m - 2) zs)" for z
    proof (cases "z = y")
      case True
      with xy show ?thesis by simp
    next
      case False
      with that sw have "k y \<le> k z" by auto
      with xy show ?thesis by (rule order_trans)
    qed
    with sw have "sorted (map k (take m xs))"
      unfolding tk by simp
    then show ?thesis
      using n d by (simp add: run_def)
  qed
  have "set run = set (take n xs)" by (simp add: run_def)
  then have "set run \<union> set (drop n xs) = set (take n xs @ drop n xs)"
    by (simp only: set_append)
  then have "set run \<union> set (drop n xs) = set xs"
    by (simp only: append_take_drop_id)
  with a have "\<forall>a\<in>set run \<union> set (drop n xs). \<forall>b\<in>set run \<union> set (drop n xs). lt a b = (k a < k b)"
    by simp
  with run have bs: "sorted (map k (binarysort lt run (drop n xs)))"
    and bf: "\<forall>c. filter (\<lambda>y. k y = c) (binarysort lt run (drop n xs))
        = filter (\<lambda>y. k y = c) (run @ drop n xs)"
    using binarysort_stable_sort [where k = k and run = run and lt = lt and rest = "drop n xs"]
    by simp_all
  have st: "filter (\<lambda>y. k y = c) (list_sort lt xs) = filter (\<lambda>y. k y = c) xs" for c
  proof -
    have "filter (\<lambda>y. k y = c) (list_sort lt xs)
        = filter (\<lambda>y. k y = c) run @ filter (\<lambda>y. k y = c) (drop n xs)"
      using bf by (simp add: out)
    also have "\<dots> = filter (\<lambda>y. k y = c) (take n xs) @ filter (\<lambda>y. k y = c) (drop n xs)"
      using run by simp
    also have "\<dots> = filter (\<lambda>y. k y = c) xs"
      by (simp only: filter_append [symmetric] append_take_drop_id)
    finally show ?thesis .
  qed
  show ?thesis
  proof (rule properties_for_sort_key [symmetric])
    show "mset (list_sort lt xs) = mset xs" by (rule mset_list_sort)
    show "sorted (map k (list_sort lt xs))" using bs by (simp add: out)
    show "filter (\<lambda>x. k z = k x) (list_sort lt xs) = filter (\<lambda>x. k z = k x) xs" for z
      using st [of "k z"] by (simp add: eq_commute)
  qed
qed
lemma float_rank_inject: "float_rank a = float_rank b \<longleftrightarrow> a = b"
  by (cases a; cases b) (simp_all add: float_rank_def)

lemma py_sorted_reverse_is_sort_key:
  assumes "\<forall>x\<in>set xs. f x \<noteq> NaN"
  shows "py_sorted_reverse f xs = rev (sort_key (\<lambda>x. float_rank (f x)) (rev xs))"
proof -
  have "list_sort (\<lambda>a b. float_lt (f a) (f b)) (rev xs)
      = sort_key (\<lambda>x. float_rank (f x)) (rev xs)"
  proof (rule list_sort_is_sort_key)
    show "\<forall>a\<in>set (rev xs). \<forall>b\<in>set (rev xs).
        float_lt (f a) (f b) = (float_rank (f a) < float_rank (f b))"
      using assms by (simp add: float_lt_rank)
  qed
  then show ?thesis by (simp add: py_sorted_reverse_def)
qed

lemma mset_py_sorted_reverse: "mset (py_sorted_reverse f xs) = mset xs"
  by (simp add: py_sorted_reverse_def mset_list_sort)

lemma set_py_sorted_reverse: "set (py_sorted_reverse f xs) = set xs"
  by (rule mset_eq_setD) (rule mset_py_sorted_reverse)

lemma py_sorted_reverse_descending:
  assumes "\<forall>x\<in>set xs. f x \<noteq> NaN"
  shows "sorted_wrt (\<lambda>a b. float_le (f b) (f a)) (py_sorted_reverse f xs)"
proof -
  let ?k = "\<lambda>x. float_rank (f x)"
  have "sorted (map ?k (sort_key ?k (rev xs)))" by simp
  then have "sorted_wrt (\<lambda>a b. ?k a \<le> ?k b) (sort_key ?k (rev xs))"
    by (simp add: sorted_map)
  then have s: "sorted_wrt (\<lambda>a b. ?k b \<le> ?k a) (py_sorted_reverse f xs)"
    by (simp add: py_sorted_reverse_is_sort_key [OF assms] sorted_wrt_rev)
  have "float_le (f b) (f a)"
    if "a \<in> set (py_sorted_reverse f xs)" and "b \<in> set (py_sorted_reverse f xs)"
      and "?k b \<le> ?k a" for a b
    using that assms by (simp add: set_py_sorted_reverse float_le_rank)
  then show ?thesis using s by (rule sorted_wrt_mono_rel)
qed

lemma py_sorted_reverse_stable:
  assumes "\<forall>x\<in>set xs. f x \<noteq> NaN"
  shows "filter (\<lambda>y. f y = c) (py_sorted_reverse f xs) = filter (\<lambda>y. f y = c) xs"
proof -
  let ?k = "\<lambda>x. float_rank (f x)"
  have eq: "(\<lambda>y. f y = c) = (\<lambda>y. ?k y = float_rank c)"
    by (simp add: float_rank_inject)
  have "filter (\<lambda>y. ?k y = float_rank c) (py_sorted_reverse f xs)
      = rev (filter (\<lambda>y. ?k y = float_rank c) (sort_key ?k (rev xs)))"
    by (simp add: py_sorted_reverse_is_sort_key [OF assms] rev_filter)
  also have "\<dots> = rev (filter (\<lambda>y. ?k y = float_rank c) (rev xs))"
    by (simp only: sort_key_stable)
  also have "\<dots> = filter (\<lambda>y. ?k y = float_rank c) xs"
    by (simp add: rev_filter)
  finally show ?thesis by (simp only: eq)
qed

lemma not_in_map_iff: "v \<notin> set (map f xs) \<longleftrightarrow> (\<forall>x\<in>set xs. f x \<noteq> v)"
  by (induction xs) auto

lemma set_sort_values_descending: "set (sort_values_descending f rows) = set rows"
  by (auto simp: sort_values_descending_def set_py_sorted_reverse)

section \<open>Candidates of the online generator\<close>

lemma length_add_similar:
  "length (add_similar service tid recs rows) \<le> length recs + length rows"
proof (induction rows arbitrary: recs)
  case Nil
  then show ?case by simp
next
  case (Cons row rows)
  show ?case
  proof (cases "get_track_info service (similar_track_id row)")
    case None
    with Cons.IH [of recs] show ?thesis by simp
  next
    case (Some track_info)
    with Cons.IH [of "recs @ [\<lparr>track_id = similar_track_id row,
               track_name = info_track_name track_info,
               artists = artist_names track_info,
               genres = genre_names track_info,
               score = similarity_score row,
               rec_type = ''similar_to_history'',
               source = ''online'',
               based_on_track = Some tid\<rparr>]"]
    show ?thesis by simp
  qed
qed

lemma length_similar_tracks_of: "length (similar_tracks_of df tid) \<le> 3"
  by (simp add: similar_tracks_of_def)

lemma length_add_recent:
  "length (add_recent service df recs recent_tracks) \<le> length recs + 3 * length recent_tracks"
proof (induction recent_tracks arbitrary: recs)
  case Nil
  then show ?case by simp
next
  case (Cons tid recent_tracks)
  have "length (add_similar service tid recs (similar_tracks_of df tid)) \<le> length recs + 3"
    using length_add_similar [of service tid recs "similar_tracks_of df tid"]
      length_similar_tracks_of [of df tid] by linarith
  with Cons.IH [of "add_similar service tid recs (similar_tracks_of df tid)"]
  show ?case by simp
qed

lemma length_unique_loop:
  "length (unique_loop seen unique_recs recs) \<le> length unique_recs + length recs"
proof (induction recs arbitrary: seen unique_recs)
  case Nil
  then show ?case by simp
next
  case (Cons r recs)
  from Cons.IH [of "insert (track_id r) seen" "unique_recs @ [r]"] Cons.IH [of seen unique_recs]
  show ?case by simp
qed

lemma online_unique_recs_short: "length (online_unique_recs service df user_history) \<le> 15"
proof -
  have "length (py_drop (- 5) user_history) \<le> 5"
    by (simp add: py_drop_def)
  with length_add_recent [of service df "[]" "py_drop (- 5) user_history"]
  have "length (add_recent service df [] (py_drop (- 5) user_history)) \<le> 15"
    by simp
  with length_unique_loop [of "{}" "[]" "add_recent service df [] (py_drop (- 5) user_history)"]
  show ?thesis by (simp add: online_unique_recs_def)
qed

lemma set_unique_loop: "set (unique_loop seen unique_recs recs) \<subseteq> set unique_recs \<union> set recs"
proof (induction recs arbitrary: seen unique_recs)
  case Nil
  then show ?case by simp
next
  case (Cons r recs)
  from Cons.IH [of "insert (track_id r) seen" "unique_recs @ [r]"] Cons.IH [of seen unique_recs]
  show ?case by auto
qed

lemma score_add_similar:
  "score ` set (add_similar service tid recs rows)
     \<subseteq> score ` set recs \<union> similarity_score ` set rows"
proof (induction rows arbitrary: recs)
  case Nil
  then show ?case by simp
next
  case (Cons row rows)
  show ?case
  proof (cases "get_track_info service (similar_track_id row)")
    case None
    with Cons.IH [of recs] show ?thesis by auto
  next
    case (Some track_info)
    with Cons.IH [of "recs @ [\<lparr>track_id = similar_track_id row,
               track_name = info_track_name track_info,
               artists = artist_names track_info,
               genres = genre_names track_info,
               score = similarity_score row,
               rec_type = ''similar_to_history'',
               source = ''online'',
               based_on_track = Some tid\<rparr>]"]
    show ?thesis by auto
  qed
qed

lemma set_similar_tracks_of: "set (similar_tracks_of df tid) \<subseteq> set df"
proof -
  have "set (similar_tracks_of df tid)
      \<subseteq> set (sort_values_descending similarity_score (filter (\<lambda>row. seed_track_id row = tid) df))"
    unfolding similar_tracks_of_def by (rule set_take_subset)
  then show ?thesis by (auto simp: set_sort_values_descending)
qed

lemma score_add_recent:
  "score ` set (add_recent service df recs recent_tracks)
     \<subseteq> score ` set recs \<union> similarity_score ` set df"
proof (induction recent_tracks arbitrary: recs)
  case Nil
  then show ?case by simp
next
  case (Cons tid recent_tracks)
  have "score ` set (add_similar service tid recs (similar_tracks_of df tid))
      \<subseteq> score ` set recs \<union> similarity_score ` set (similar_tracks_of df tid)"
    by (rule score_add_similar)
  also have "\<dots> \<subseteq> score ` set recs \<union> similarity_score ` set df"
    using set_similar_tracks_of [of df tid] by blast
  finally have step: "score ` set (add_similar service tid recs (similar_tracks_of df tid))
      \<subseteq> score ` set recs \<union> similarity_score ` set df" .
  have "score ` set (add_recent service df recs (tid # recent_tracks))
      \<subseteq> score ` set (add_similar service tid recs (similar_tracks_of df tid))
        \<union> similarity_score ` set df"
    using Cons.IH [of "add_similar service tid recs (similar_tracks_of df tid)"] by simp
  with step show ?case by blast
qed

lemma online_unique_recs_not_nan:
  assumes "\<forall>row\<in>set df. similarity_score row \<noteq> NaN"
  shows "\<forall>c\<in>set (online_unique_recs service df user_history). score c \<noteq> NaN"
proof
  fix c
  assume "c \<in> set (online_unique_recs service df user_history)"
  with set_unique_loop [of "{}" "[]" "add_recent service df [] (py_drop (- 5) user_history)"]
  have "c \<in> set (add_recent service df [] (py_drop (- 5) user_history))"
    by (auto simp: online_unique_recs_def)
  with score_add_recent [of service df "[]" "py_drop (- 5) user_history"]
  have "score c \<in> similarity_score ` set df" by auto
  with assms show "score c \<noteq> NaN" by auto
qed

lemma unique_loop_distinct:
  "distinct (map track_id unique_recs) \<Longrightarrow> track_id ` set unique_recs \<subseteq> seen
    \<Longrightarrow> distinct (map track_id (unique_loop seen unique_recs recs))"
proof (induction recs arbitrary: seen unique_recs)
  case Nil
  then show ?case by simp
next
  case (Cons r recs)
  show ?case
  proof (cases "track_id r \<in> seen")
    case True
    with Cons show ?thesis by simp
  next
    case False
    have "distinct (map track_id (unique_recs @ [r]))"
      using Cons.prems False by auto
    moreover have "track_id ` set (unique_recs @ [r]) \<subseteq> insert (track_id r) seen"
      using Cons.prems by auto
    ultimately have "distinct (map track_id (unique_loop (insert (track_id r) seen) (unique_recs @ [r]) recs))"
      by (rule Cons.IH)
    with False show ?thesis by simp
  qed
qed

lemma online_unique_recs_distinct: "distinct (map track_id (online_unique_recs service df h))"
  unfolding online_unique_recs_def by (rule unique_loop_distinct) simp_all

lemma distinct_map_py_sorted_reverse:
  "distinct (map g xs) \<Longrightarrow> distinct (map g (py_sorted_reverse f xs))"
proof -
  assume "distinct (map g xs)"
  moreover have "mset (map g (py_sorted_reverse f xs)) = mset (map g xs)"
    by (simp add: mset_py_sorted_reverse)
  ultimately show ?thesis by (metis mset_eq_imp_distinct_iff)
qed

lemma get_online_recommendations_distinct:
  "distinct (map track_id (get_online_recommendations service h limit))"
  by (simp add: get_online_recommendations_def distinct_map_py_take
      distinct_map_py_sorted_reverse online_unique_recs_distinct split: option.split)

section \<open>Duplicates in the blend\<close>

lemma add_online_eq:
  "add_online ids blended online_recs = blended @ filter (\<lambda>r. track_id r \<notin> ids) online_recs"
  by (induction online_recs arbitrary: blended) simp_all

lemma distinct_append_part_fresh:
  assumes "distinct (map f xs)" and "distinct (map f zs)"
    and "set zs \<subseteq> set (filter (\<lambda>r. f r \<notin> set (map f xs)) ys)"
  shows "distinct (map f (xs @ zs))"
proof -
  have "a \<notin> set (map f xs)" if "a \<in> set (map f zs)" for a
  proof -
    from that obtain r where "r \<in> set zs" and "a = f r" by auto
    with assms(3) show ?thesis by auto
  qed
  then have "set (map f xs) \<inter> set (map f zs) = {}" by blast
  with assms(1,2) show ?thesis by (simp only: map_append distinct_append)
qed

lemma distinct_append_fresh:
  assumes "distinct (map f xs)" and "distinct (map f ys)"
  shows "distinct (map f (xs @ filter (\<lambda>r. f r \<notin> set (map f xs)) ys))"
  using assms(1)
proof (rule distinct_append_part_fresh)
  show "distinct (map f (filter (\<lambda>r. f r \<notin> set (map f xs)) ys))"
    using assms(2) by (rule distinct_map_filter)
  show "set (filter (\<lambda>r. f r \<notin> set (map f xs)) ys)
      \<subseteq> set (filter (\<lambda>r. f r \<notin> set (map f xs)) ys)"
    by (rule subset_refl)
qed

lemma blend_with_distinct:
  assumes off: "distinct (map track_id offline_recs)"
    and on: "distinct (map track_id online_recs)"
  shows "distinct (map track_id (blend_with offline_recs online_recs total_limit offline_limit))"
proof -
  let ?head = "py_take offline_limit offline_recs"
  let ?rest = "py_drop offline_limit offline_recs"
  let ?fill = "filter (\<lambda>r. track_id r \<notin> set (map track_id ?head))
                 (py_take (total_limit - offline_limit) online_recs)"
  let ?b1 = "?head @ ?fill"
  let ?add = "filter (\<lambda>r. track_id r \<notin> set (map track_id ?b1)) ?rest"
  have "distinct (map track_id (?head @ ?rest))"
    using off by (simp only: py_take_py_drop)
  then have d_head: "distinct (map track_id ?head)" and d_rest: "distinct (map track_id ?rest)"
    by simp_all
  have d_b1: "distinct (map track_id ?b1)"
    by (rule distinct_append_fresh [OF d_head distinct_map_py_take [OF on]])
  have d_add: "distinct (map track_id (py_take n ?add))" for n
    by (rule distinct_map_py_take [OF distinct_map_filter [OF d_rest]])
  have sub: "set (py_take n ?add) \<subseteq> set ?add" for n
    by (rule set_py_take_subset)
  have d_b2: "distinct (map track_id (?b1 @ py_take n ?add))" for n
    using d_b1 d_add [of n] sub [of n] by (rule distinct_append_part_fresh)
  show ?thesis
    unfolding blend_with_def Let_def add_online_eq
    using d_b1 d_b2 by (simp add: distinct_map_py_take del: map_append)
qed

section \<open>Rounding to a double\<close>

lemma bit_len_nonpos: "n \<le> 0 \<Longrightarrow> bit_len n = 0"
  by (simp add: bit_len.simps)

lemma bit_len_pos: "0 < n \<Longrightarrow> bit_len n = Suc (bit_len (n div 2))"
  by (subst bit_len.simps) simp


lemma bit_len_upper: "n < 2 ^ k \<Longrightarrow> bit_len n \<le> k"
proof (induction k arbitrary: n)
  case 0
  then show ?case by (simp add: bit_len_nonpos)
next
  case (Suc k)
  show ?case
  proof (cases "0 < n")
    case True
    from Suc.prems have "n div 2 < 2 ^ k" by simp
    then have "bit_len (n div 2) \<le> k" by (rule Suc.IH)
    with True show ?thesis by (simp add: bit_len_pos)
  next
    case False
    then show ?thesis by (simp add: bit_len_nonpos)
  qed
qed

lemma round53_small: "n < 2 ^ 53 \<Longrightarrow> round53 n = n"
  using bit_len_upper [of n 53] by (simp add: round53_def)




lemma int_mul_0_7_no_overflow:
  assumes "\<bar>n\<bar> < 2 ^ 53"
  shows "\<exists>v. int_mul_0_7 n = Inr v"
proof -
  from assms have "round53 \<bar>n\<bar> = \<bar>n\<bar>" by (rule round53_small)
  moreover have "\<bar>n\<bar> < 2 ^ 1024"
  proof -
    have "(2::int) ^ 53 \<le> 2 ^ 1024" by (rule power_increasing) simp_all
    with assms show ?thesis by linarith
  qed
  ultimately show ?thesis
    by (simp add: int_mul_0_7_def Let_def)
qed

section \<open>Quotas and the blended prefix\<close>



lemma offline_limit_of_in_range:
  assumes "1 \<le> limit" and "limit \<le> 100"
  shows "\<exists>v. offline_limit_of limit = Inr v"
  unfolding offline_limit_of_def
proof (rule int_mul_0_7_no_overflow)
  from assms show "\<bar>limit\<bar> < 2 ^ 53" by simp
qed

section \<open>Offline stages keep track ids apart\<close>

lemma map_track_id_add_personal:
  "map track_id (add_personal service recs rows) =
     map track_id recs
     @ filter (\<lambda>t. get_track_info service t \<noteq> None) (map personal_track_id rows)"
  by (induction rows arbitrary: recs) (auto split: option.splits)

lemma add_popular_distinct:
  "distinct (map track_id recs) \<Longrightarrow> distinct (map track_id (add_popular service recs rows))"
proof (induction rows arbitrary: recs)
  case Nil
  then show ?case by simp
next
  case (Cons row rows)
  show ?case
  proof (cases "get_track_info service (popular_track_id row)")
    case None
    with Cons show ?thesis by simp
  next
    case (Some track_info)
    show ?thesis
    proof (cases "list_ex (\<lambda>r. track_id r = popular_track_id row) recs")
      case True
      with Some Cons show ?thesis by simp
    next
      case False
      then have "popular_track_id row \<notin> set (map track_id recs)"
        by (auto simp: list_ex_iff)
      with Cons.prems have "distinct (map track_id
          (recs @ [\<lparr>track_id = popular_track_id row,
                 track_name = info_track_name track_info,
                 artists = artist_names track_info,
                 genres = genre_names track_info,
                 score = Finite (of_int (case popular_users row of Some u \<Rightarrow> u | None \<Rightarrow> 1)),
                 rec_type = ''top_popular'',
                 source = ''offline'',
                 based_on_track = None\<rparr>]))"
        by simp
      then show ?thesis using Some False by (simp add: Cons.IH del: map_append)
    qed
  qed
qed

lemma add_random_distinct:
  "distinct (map track_id recs) \<Longrightarrow> distinct (map track_id (add_random recs rows))"
proof (induction rows arbitrary: recs)
  case Nil
  then show ?case by simp
next
  case (Cons row rows)
  show ?case
  proof (cases "list_ex (\<lambda>r. track_id r = item_track_id row) recs")
    case True
    with Cons show ?thesis by simp
  next
    case False
    then have "item_track_id row \<notin> set (map track_id recs)"
      by (auto simp: list_ex_iff)
    with Cons.prems have "distinct (map track_id
        (recs @ [\<lparr>track_id = item_track_id row,
             track_name = item_track_name row,
             artists = list_cell (item_artist_names row),
             genres = list_cell (item_genre_names row),
             score = double_0_1,
             rec_type = ''random'',
             source = ''offline'',
             based_on_track = None\<rparr>]))"
      by simp
    then show ?thesis using False by (simp add: Cons.IH del: map_append)
  qed
qed

lemma get_offline_recommendations_stages:
  "\<exists>recs1 recs2 recs3.
     get_offline_recommendations service sample uid limit = py_take limit recs3
     \<and> recs1 =
         (case personal_recs_df service of
            None \<Rightarrow> []
          | Some df \<Rightarrow>
              add_personal service []
                (py_take limit (filter (\<lambda>row. personal_user_id row = uid) df)))
     \<and> (recs2 = recs1 \<or> (\<exists>rows. recs2 = add_popular service recs1 rows))
     \<and> (recs3 = recs2 \<or> (\<exists>rows. recs3 = add_random recs2 rows))"
proof -
  define recs1 where "recs1 =
     (case personal_recs_df service of
        None \<Rightarrow> []
      | Some df \<Rightarrow>
          add_personal service []
            (py_take limit (filter (\<lambda>row. personal_user_id row = uid) df)))"
  define recs2 where "recs2 =
     (if int (length recs1) < limit
      then
        (case top_popular_df service of
           None \<Rightarrow> recs1
         | Some df \<Rightarrow> add_popular service recs1 (py_take (limit - int (length recs1)) df))
      else recs1)"
  define recs3 where "recs3 =
     (if int (length recs2) < limit
      then
        (case items_df service of
           None \<Rightarrow> recs2
         | Some items \<Rightarrow>
             add_random recs2
               (sample items (nat (min (limit - int (length recs2)) (int (length items))))))
      else recs2)"
  have out: "get_offline_recommendations service sample uid limit = py_take limit recs3"
    by (simp only: get_offline_recommendations_def Let_def recs1_def recs2_def recs3_def)
  have s2: "recs2 = recs1 \<or> (\<exists>rows. recs2 = add_popular service recs1 rows)"
    unfolding recs2_def by (auto split: option.split)
  have s3: "recs3 = recs2 \<or> (\<exists>rows. recs3 = add_random recs2 rows)"
    unfolding recs3_def by (auto split: option.split)
  from out recs1_def s2 s3 show ?thesis by blast
qed

lemma get_offline_recommendations_length:
  assumes "0 \<le> limit"
  shows "int (length (get_offline_recommendations service sample uid limit)) \<le> limit"
proof -
  from get_offline_recommendations_stages [of service sample uid limit]
  obtain recs3 where "get_offline_recommendations service sample uid limit = py_take limit recs3"
    by blast
  with assms show ?thesis by (simp add: length_py_take)
qed

lemma get_offline_recommendations_distinct:
  assumes "\<And>df. personal_recs_df service = Some df \<Longrightarrow>
           distinct (map personal_track_id (filter (\<lambda>row. personal_user_id row = uid) df))"
  shows "distinct (map track_id (get_offline_recommendations service sample uid limit))"
proof -
  from get_offline_recommendations_stages [of service sample uid limit]
  obtain recs1 recs2 recs3 where
    out: "get_offline_recommendations service sample uid limit = py_take limit recs3"
    and r1: "recs1 =
         (case personal_recs_df service of
            None \<Rightarrow> []
          | Some df \<Rightarrow>
              add_personal service []
                (py_take limit (filter (\<lambda>row. personal_user_id row = uid) df)))"
    and r2: "recs2 = recs1 \<or> (\<exists>rows. recs2 = add_popular service recs1 rows)"
    and r3: "recs3 = recs2 \<or> (\<exists>rows. recs3 = add_random recs2 rows)"
    by blast
  have d1: "distinct (map track_id recs1)"
  proof (cases "personal_recs_df service")
    case None
    then show ?thesis by (simp add: r1)
  next
    case (Some df)
    from assms [OF Some]
    have "distinct (map personal_track_id
        (py_take limit (filter (\<lambda>row. personal_user_id row = uid) df)))"
      by (rule distinct_map_py_take)
    then show ?thesis
      using Some by (simp add: r1 map_track_id_add_personal)
  qed
  from r2 d1 have d2: "distinct (map track_id recs2)"
    by (auto simp: add_popular_distinct)
  from r3 d2 have d3: "distinct (map track_id recs3)"
    by (auto simp: add_random_distinct)
  then have "distinct (map track_id (py_take limit recs3))"
    by (rule distinct_map_py_take)
  then show ?thesis by (simp only: out)
qed

lemma blend_recommendations_distinct:
  assumes "distinct (map track_id offline_recs)"
    and "distinct (map track_id online_recs)"
    and "blend_recommendations offline_recs online_recs total_limit = Inr blended"
  shows "distinct (map track_id blended)"
  using assms
  by (auto simp: blend_recommendations_def blend_with_distinct split: sum.splits)

lemma get_recommendations_distinct:
  assumes "\<And>df. personal_recs_df service = Some df \<Longrightarrow>
           distinct (map personal_track_id (filter (\<lambda>row. personal_user_id row = uid) df))"
    and "get_recommendations service sample now uid limit online_history = Inr response"
  shows "distinct (map track_id (recommendations response))"
proof -
  from assms(2) obtain user_online_history where
    "blend_recommendations (get_offline_recommendations service sample uid limit)
       (get_online_recommendations service user_online_history limit) limit
     = Inr (recommendations response)"
    by (auto simp: get_recommendations_def Let_def split: if_splits sum.splits)
  with get_offline_recommendations_distinct [OF assms(1)] get_online_recommendations_distinct
  show ?thesis by (rule blend_recommendations_distinct)
qed

section \<open>A store without catalog\<close>

lemma get_track_info_no_catalog: "items_df service = None \<Longrightarrow> get_track_info service tid = None"
  by (simp add: get_track_info_def)

lemma add_personal_no_catalog: "items_df service = None \<Longrightarrow> add_personal service recs rows = recs"
  by (induction rows arbitrary: recs) (simp_all add: get_track_info_no_catalog)

lemma add_popular_no_catalog: "items_df service = None \<Longrightarrow> add_popular service recs rows = recs"
  by (induction rows arbitrary: recs) (simp_all add: get_track_info_no_catalog)

lemma get_track_info_missing:
  assumes "items_df service = Some items" and "tid \<notin> set (map item_track_id items)"
  shows "get_track_info service tid = None"
proof -
  from assms(2) have "filter (\<lambda>row. item_track_id row = tid) items = []"
    by (auto simp: filter_empty_conv)
  with assms(1) show ?thesis by (simp add: get_track_info_def)
qed

text \<open>
  C7.  When the catalog table is absent, the offline generator returns the empty
  sequence, for every user, every limit, every state of the other tables and every draw:
  the personal and popularity stages resolve no track and the random stage is skipped.
\<close>

theorem offline_empty_without_catalog:
  "items_df service = None \<Longrightarrow> get_offline_recommendations service sample uid limit = []"
  by (simp add: get_offline_recommendations_def add_personal_no_catalog add_popular_no_catalog
      py_take_Nil Let_def split: option.split)

theorem offline_empty_without_catalog_witness:
  "items_df ex_no_catalog = None \<and> get_offline_recommendations ex_no_catalog ex_sample 5 3 = []"
  using offline_empty_without_catalog [of ex_no_catalog ex_sample 5 3]
  by (simp add: ex_no_catalog_def)

text \<open>
  C8.  The health operation reports \<open>degraded\<close> with \<open>data_loaded = False\<close> exactly when
  the catalog table is missing or both the personal and the popularity table are absent,
  and \<open>healthy\<close> with \<open>data_loaded = True\<close> otherwise; with the catalog absent it is
  degraded whatever the other tables are.
\<close>

theorem health_degraded_iff:
  "health service now =
     \<lparr>status =
        (if items_df service = None \<or> (personal_recs_df service = None \<and> top_popular_df service = None)
         then ''degraded'' else ''healthy''),
      data_loaded =
        (\<not> (items_df service = None \<or> (personal_recs_df service = None \<and> top_popular_df service = None))),
      health_timestamp = now\<rparr>"
  by (simp add: health_def Let_def)

theorem health_degraded_iff_witness:
  "health ex_no_catalog ''t'' = \<lparr>status = ''degraded'', data_loaded = False, health_timestamp = ''t''\<rparr>
   \<and> health (ex_catalog\<lparr>top_popular_df := Some []\<rparr>) ''t''
       = \<lparr>status = ''healthy'', data_loaded = True, health_timestamp = ''t''\<rparr>
   \<and> health ex_catalog ''t'' = \<lparr>status = ''degraded'', data_loaded = False, health_timestamp = ''t''\<rparr>"
  using health_degraded_iff [of ex_no_catalog "''t''"]
    health_degraded_iff [of "ex_catalog\<lparr>top_popular_df := Some []\<rparr>" "''t''"]
    health_degraded_iff [of ex_catalog "''t''"]
  by (simp add: ex_no_catalog_def ex_catalog_def)

text \<open>
  C9.  With the catalog table absent, the track query answers every \<open>track_id\<close> with
  the error 404 \<open>Track not found\<close>, the very answer a loaded catalog gives for an id it
  does not hold.
\<close>

theorem track_query_degraded_same_as_missing:
  assumes "items_df degraded = None"
    and "items_df loaded = Some items"
    and "missing \<notin> set (map item_track_id items)"
  shows "get_track_info_endpoint degraded tid = Inl (HTTPException 404 ''Track not found'')
     \<and> get_track_info_endpoint degraded tid = get_track_info_endpoint loaded missing"
  using assms
  by (simp add: get_track_info_endpoint_def get_track_info_no_catalog get_track_info_missing)

theorem track_query_degraded_same_as_missing_witness:
  "items_df ex_no_catalog = None \<and> items_df ex_catalog = Some [ex_item 1, ex_item 2, ex_item 3]
   \<and> 7 \<notin> set (map item_track_id [ex_item 1, ex_item 2, ex_item 3])
   \<and> get_track_info_endpoint ex_no_catalog 1 = Inl (HTTPException 404 ''Track not found'')
   \<and> get_track_info_endpoint ex_no_catalog 1 = get_track_info_endpoint ex_catalog 7"
proof -
  have h1: "items_df ex_no_catalog = None"
    by (simp add: ex_no_catalog_def)
  have h2: "items_df ex_catalog = Some [ex_item 1, ex_item 2, ex_item 3]"
    by (simp add: ex_catalog_def)
  have h3: "7 \<notin> set (map item_track_id [ex_item 1, ex_item 2, ex_item 3])"
    by (simp add: ex_item_def)
  from track_query_degraded_same_as_missing [OF h1 h2 h3, of 1] h1 h2 h3
  show ?thesis by blast
qed

text \<open>
  C10.  An \<open>online_history\<close> parameter that is the empty string is read as no history:
  the parsed history is empty, the request is answered as the request without the
  parameter is, it never fails with the format error, and a response reports that no
  history was provided.  Read as a comma-separated list the empty string would be
  malformed, its only field not being an integer.
\<close>

theorem empty_online_history_is_no_history:
  "parse_online_history (Some '''') = Inr []
   \<and> all_ints (split_comma '''') = None
   \<and> get_recommendations service sample now uid limit (Some '''')
       = get_recommendations service sample now uid limit None
   \<and> (case get_recommendations service sample now uid limit (Some '''') of
         Inl e \<Rightarrow> e \<noteq> HTTPException 400 ''Invalid online_history format''
       | Inr resp \<Rightarrow> \<not> online_history_provided (statistics resp))"
  by (simp add: parse_online_history_def get_recommendations_def py_int_def py_strip_def Let_def
      split: sum.split)

theorem empty_online_history_is_no_history_witness:
  "get_recommendations ex_catalog ex_sample ''t'' 5 3 (Some '''')
     = get_recommendations ex_catalog ex_sample ''t'' 5 3 None
   \<and> map_sum id (online_history_provided \<circ> statistics)
        (get_recommendations ex_catalog ex_sample ''t'' 5 3 (Some '''')) = Inr False"
proof -
  have "map_sum id (online_history_provided \<circ> statistics)
        (get_recommendations ex_catalog ex_sample ''t'' 5 3 (Some '''')) = Inr False"
    by code_simp
  with empty_online_history_is_no_history [of ex_catalog ex_sample "''t''" 5 3]
  show ?thesis by blast
qed

section \<open>Orchestrator: the limit given to the online generator\<close>

text \<open>
  C1, as the code has it.  For a limit in \<open>[1, 100]\<close> and a history that parses, the
  recommend operation calls the online generator with the request's own \<open>limit\<close>, the
  value it also gives to the offline generator and to the blender; the response carries
  that blend, and its \<open>online_count\<close> is the length of that online list.
\<close>

theorem recommend_passes_limit_to_online:
  assumes "1 \<le> limit" and "limit \<le> 100"
    and "parse_online_history online_history = Inr user_online_history"
  shows "\<exists>final.
      blend_recommendations (get_offline_recommendations service sample uid limit)
        (get_online_recommendations service user_online_history limit) limit = Inr final
      \<and> get_recommendations service sample now uid limit online_history =
          Inr \<lparr>user_id = uid,
               recommendations = final,
               statistics =
                 \<lparr>total_recommendations = length final,
                   offline_count = length (get_offline_recommendations service sample uid limit),
                   online_count =
                     length (get_online_recommendations service user_online_history limit),
                   stats_user_id = uid,
                   online_history_provided = (user_online_history \<noteq> [])\<rparr>,
               timestamp = now\<rparr>"
proof -
  from assms(1,2) obtain v where "offline_limit_of limit = Inr v"
    using offline_limit_of_in_range by blast
  then obtain final where f:
    "blend_recommendations (get_offline_recommendations service sample uid limit)
        (get_online_recommendations service user_online_history limit) limit = Inr final"
    by (simp add: blend_recommendations_def)
  with assms show ?thesis
    by (simp add: get_recommendations_def Let_def)
qed

text \<open>
  C1 as stated fails: with limit 20 and two seeds of three similar tracks each, the
  response counts six online candidates and recommends the sixth (track 16), where an
  online generator held to five would have returned five and left room for the offline
  track 115.
\<close>

theorem recommend_passes_limit_to_online_counterexample:
  "map_sum id (\<lambda>resp. (online_count (statistics resp), map track_id (recommendations resp)))
     (get_recommendations ex_online ex_sample ''t'' 0 20 (Some ''1,2''))
     = Inr (6, [101, 102, 103, 104, 105, 106, 107, 108, 109, 110, 111, 112, 113, 114,
                11, 12, 13, 14, 15, 16])
   \<and> map track_id (get_online_recommendations ex_online [1, 2] 5) = [11, 12, 13, 14, 15]
   \<and> map_sum id (map track_id)
       (blend_recommendations (get_offline_recommendations ex_online ex_sample 0 20)
          (get_online_recommendations ex_online [1, 2] 5) 20)
     = Inr [101, 102, 103, 104, 105, 106, 107, 108, 109, 110, 111, 112, 113, 114,
            11, 12, 13, 14, 15, 115]"
  by code_simp

theorem recommend_passes_limit_to_online_witness:
  "(1::int) \<le> 20 \<and> (20::int) \<le> 100 \<and> parse_online_history (Some ''1,2'') = Inr [1, 2]
   \<and> length (get_online_recommendations ex_online [1, 2] 20) = 6
   \<and> (\<exists>final.
        blend_recommendations (get_offline_recommendations ex_online ex_sample 0 20)
          (get_online_recommendations ex_online [1, 2] 20) 20 = Inr final
        \<and> get_recommendations ex_online ex_sample ''t'' 0 20 (Some ''1,2'') =
            Inr \<lparr>user_id = 0,
                 recommendations = final,
                 statistics =
                   \<lparr>total_recommendations = length final,
                     offline_count = length (get_offline_recommendations ex_online ex_sample 0 20),
                     online_count = length (get_online_recommendations ex_online [1, 2] 20),
                     stats_user_id = 0,
                     online_history_provided = ([1, 2] \<noteq> ([]::int list))\<rparr>,
                 timestamp = ''t''\<rparr>)"
proof -
  have h1: "(1::int) \<le> 20" by simp
  have h2: "(20::int) \<le> 100" by simp
  have h3: "parse_online_history (Some ''1,2'') = Inr [1, 2]" by code_simp
  have e: "length (get_online_recommendations ex_online [1, 2] 20) = 6" by code_simp
  from recommend_passes_limit_to_online [OF h1 h2 h3, of ex_online ex_sample 0 "''t''"] h1 h2 h3 e
  show ?thesis by blast
qed

section \<open>Blender: quotas, online fill, duplicates\<close>

text \<open>
  C2 at \<open>total_limit = 90\<close>.  The double product \<open>90 * 0.7\<close> is
  \<open>62.99999999999999\<close>, so the offline quota is 62 and the online quota 28, where
  \<open>floor(90 * 7 / 10)\<close> is 63: of 90 offline and 28 online candidates the blend takes
  62 and 28.
\<close>

theorem offline_quota_at_90:
  "offline_limit_of 90 = Inr 62 \<and> online_limit_of 90 = Inr 28 \<and> (90 * 7) div 10 = (63::int)
   \<and> map_sum id (map track_id)
       (blend_recommendations (map ex_rec [1..90]) (map ex_rec [101..128]) 90)
     = Inr ([1..62] @ [101..128])"
  by code_simp

text \<open>
  For every other \<open>total_limit\<close> in \<open>[1, 100]\<close> the offline quota is
  \<open>floor(total_limit * 7 / 10)\<close>.
\<close>

lemma offline_quota_floor_except_90:
  "list_all (\<lambda>n. n = 90 \<or> offline_limit_of n = Inr (n * 7 div 10)) [1..100]"
  by code_simp





section \<open>Generators: duplicates and order\<close>


text \<open>
  C6, as the code has it.  When no deduplicated candidate has the score NaN, the output
  of the online generator is descending by score, for every history and limit.  It is
  then the truncation to \<open>limit\<close> of a list that holds exactly the deduplicated
  candidates, is descending by score, and keeps the candidates of each score in their
  encounter order; so the candidates of one score in the output are an initial part of
  those in encounter order.  A similarity table without NaN gives no candidate the score
  NaN (lemma \<open>online_unique_recs_not_nan\<close>).
\<close>

theorem online_sorted_descending_stable:
  assumes "\<forall>df. similar_df service = Some df \<longrightarrow>
      NaN \<notin> set (map score (online_unique_recs service df user_history))"
  shows "descending_by_score (get_online_recommendations service user_history limit)
   \<and> (\<forall>df. user_history \<noteq> [] \<and> similar_df service = Some df \<longrightarrow>
        (\<exists>sorted_recs.
           get_online_recommendations service user_history limit = py_take limit sorted_recs
           \<and> mset sorted_recs = mset (online_unique_recs service df user_history)
           \<and> descending_by_score sorted_recs
           \<and> (\<forall>s. filter (\<lambda>c. score c = s) sorted_recs
                  = filter (\<lambda>c. score c = s) (online_unique_recs service df user_history))
           \<and> (\<forall>s. \<exists>j. filter (\<lambda>c. score c = s)
                        (get_online_recommendations service user_history limit)
                  = take j (filter (\<lambda>c. score c = s)
                        (online_unique_recs service df user_history)))))"
proof (intro conjI allI impI)
  show "descending_by_score (get_online_recommendations service user_history limit)"
  proof (cases "similar_df service")
    case None
    then show ?thesis
      by (simp add: get_online_recommendations_def descending_by_score_def)
  next
    case (Some df)
    with assms have "NaN \<notin> set (map score (online_unique_recs service df user_history))"
      by blast
    then have "\<forall>c\<in>set (online_unique_recs service df user_history). score c \<noteq> NaN"
      by (simp only: not_in_map_iff)
    then have "sorted_wrt (\<lambda>a b. float_le (score b) (score a))
        (py_sorted_reverse score (online_unique_recs service df user_history))"
      by (rule py_sorted_reverse_descending)
    then have "sorted_wrt (\<lambda>a b. float_le (score b) (score a))
        (py_take limit (py_sorted_reverse score (online_unique_recs service df user_history)))"
      by (rule sorted_wrt_py_take)
    with Some show ?thesis
      by (simp add: get_online_recommendations_def descending_by_score_def)
  qed
next
  fix df
  assume a: "user_history \<noteq> [] \<and> similar_df service = Some df"
  let ?u = "online_unique_recs service df user_history"
  let ?s = "py_sorted_reverse score ?u"
  from assms a have "NaN \<notin> set (map score ?u)"
    by blast
  then have n: "\<forall>c\<in>set ?u. score c \<noteq> NaN"
    by (simp only: not_in_map_iff)
  have out: "get_online_recommendations service user_history limit = py_take limit ?s"
    using a by (simp add: get_online_recommendations_def)
  have stable: "filter (\<lambda>c. score c = s) ?s = filter (\<lambda>c. score c = s) ?u" for s
    using n by (rule py_sorted_reverse_stable)
  have desc: "descending_by_score ?s"
    unfolding descending_by_score_def using n by (rule py_sorted_reverse_descending)
  have pre: "\<exists>j. filter (\<lambda>c. score c = s) (get_online_recommendations service user_history limit)
      = take j (filter (\<lambda>c. score c = s) ?u)" for s
  proof -
    obtain k where "py_take limit ?s = take k ?s" using py_take_is_take by blast
    moreover obtain j where
      "filter (\<lambda>c. score c = s) (take k ?s) = take j (filter (\<lambda>c. score c = s) ?s)"
      using filter_take_is_take by blast
    ultimately show ?thesis using out by (auto simp: stable)
  qed
  show "\<exists>sorted_recs.
           get_online_recommendations service user_history limit = py_take limit sorted_recs
           \<and> mset sorted_recs = mset ?u
           \<and> descending_by_score sorted_recs
           \<and> (\<forall>s. filter (\<lambda>c. score c = s) sorted_recs = filter (\<lambda>c. score c = s) ?u)
           \<and> (\<forall>s. \<exists>j. filter (\<lambda>c. score c = s)
                        (get_online_recommendations service user_history limit)
                  = take j (filter (\<lambda>c. score c = s) ?u))"
    using out pre desc stable
    by (intro exI [of _ ?s]) (simp add: mset_py_sorted_reverse)
qed

text \<open>
  C6 as stated fails: with the candidates of scores \<open>1.0\<close>, NaN and \<open>2.0\<close>, in
  this encounter order, the sort leaves the list as it is, every comparison with NaN
  being false; the output has the candidate of score \<open>1.0\<close> before the one of score
  \<open>2.0\<close> and is not descending.
\<close>

theorem online_sorted_descending_stable_counterexample:
  "map track_id (get_online_recommendations ex_nan [1, 2, 3] 5) = [11, 12, 13]
   \<and> map score (get_online_recommendations ex_nan [1, 2, 3] 5) = [Finite 1, NaN, Finite 2]
   \<and> float_lt (Finite 1) (Finite 2)
   \<and> \<not> descending_by_score (get_online_recommendations ex_nan [1, 2, 3] 5)"
  by code_simp

theorem online_sorted_descending_stable_witness:
  "NaN \<notin> set (map score (online_unique_recs ex_ties ex_ties_table [1, 2]))
   \<and> [1, 2] \<noteq> ([]::int list) \<and> similar_df ex_ties = Some ex_ties_table
   \<and> map track_id (online_unique_recs ex_ties ex_ties_table [1, 2]) = [11, 12, 14, 13]
   \<and> map track_id (get_online_recommendations ex_ties [1, 2] 5) = [11, 14, 12, 13]
   \<and> descending_by_score (get_online_recommendations ex_ties [1, 2] 5)
   \<and> (\<exists>sorted_recs.
        get_online_recommendations ex_ties [1, 2] 5 = py_take 5 sorted_recs
        \<and> mset sorted_recs = mset (online_unique_recs ex_ties ex_ties_table [1, 2])
        \<and> (\<forall>s. filter (\<lambda>c. score c = s) sorted_recs
               = filter (\<lambda>c. score c = s) (online_unique_recs ex_ties ex_ties_table [1, 2])))"
proof -
  have n: "NaN \<notin> set (map score (online_unique_recs ex_ties ex_ties_table [1, 2]))"
    by code_simp
  have t: "similar_df ex_ties = Some ex_ties_table"
    by (simp add: ex_ties_def)
  from n t have h: "\<forall>df. similar_df ex_ties = Some df \<longrightarrow>
      NaN \<notin> set (map score (online_unique_recs ex_ties df [1, 2]))"
    by simp
  have e1: "map track_id (online_unique_recs ex_ties ex_ties_table [1, 2]) = [11, 12, 14, 13]"
    by code_simp
  have e2: "map track_id (get_online_recommendations ex_ties [1, 2] 5) = [11, 14, 12, 13]"
    by code_simp
  from online_sorted_descending_stable [OF h, of 5] n t e1 e2
  show ?thesis by blast
qed

end
